theory Spec2Isabelle
  imports Complex_Main "HOL-Library.Word" "HOL-Library.Log_Nat"
begin

unbundle bit_operations_syntax

section \<open>JavaScript numbers\<close>

text \<open>
  A JavaScript number is an IEEE-754 double: not-a-number, the two infinities, or a
  finite value, kept here with its exact real value. The two signed zeros are not
  told apart: no operation of the modelled code separates them.
\<close>

datatype jsnum = NaN | NegInf | Fin real | PosInf

text \<open>\<open>round_half_even\<close> is round-to-nearest with ties to the even integer.\<close>

definition round_half_even :: "real \<Rightarrow> int" where
  "round_half_even x =
     (let f = \<lfloor>x\<rfloor>; d = x - of_int f in
      if d < 1 / 2 then f
      else if 1 / 2 < d then f + 1
      else if even f then f else f + 1)"

text \<open>\<open>ilog2 x\<close> is the binary exponent of a non-zero \<open>x\<close>: \<open>2 ^ ilog2 x \<le> \<bar>x\<bar> < 2 ^ (ilog2 x + 1)\<close>.\<close>

definition ilog2 :: "real \<Rightarrow> int" where
  "ilog2 x = (if 1 \<le> \<bar>x\<bar> then bitlen \<lfloor>\<bar>x\<bar>\<rfloor> - 1 else - bitlen (\<lceil>1 / \<bar>x\<bar>\<rceil> - 1))"

text \<open>
  Rounding of a real to the binary format with \<open>p\<close> significant bits and exponents
  \<open>emin .. emax\<close> (round to nearest, ties to even, gradual underflow, overflow to
  infinity).
\<close>

definition ieee_round :: "nat \<Rightarrow> int \<Rightarrow> int \<Rightarrow> real \<Rightarrow> jsnum" where
  "ieee_round p emin emax x =
     (if x = 0 then Fin 0
      else
        let e = max emin (ilog2 x);
            ulp = 2 powi (e - int p + 1);
            y = of_int (round_half_even (x / ulp)) * ulp
        in if 2 powi (emax + 1) \<le> \<bar>y\<bar> then (if x < 0 then NegInf else PosInf) else Fin y)"

definition to_f64 :: "real \<Rightarrow> jsnum" where
  "to_f64 = ieee_round 53 (- 1022) 1023"

definition to_f32 :: "real \<Rightarrow> jsnum" where
  "to_f32 = ieee_round 24 (- 126) 127"

text \<open>A store into a \<open>Float32Array\<close> rounds the number to single precision.\<close>

fun to_float32 :: "jsnum \<Rightarrow> jsnum" where
  "to_float32 (Fin x) = to_f32 x"
| "to_float32 v = v"

fun js_sgn :: "jsnum \<Rightarrow> int" where
  "js_sgn NaN = 0"
| "js_sgn NegInf = - 1"
| "js_sgn PosInf = 1"
| "js_sgn (Fin x) = (if x < 0 then - 1 else if x = 0 then 0 else 1)"

text \<open>The operators \<open>+\<close> and \<open>*\<close> on numbers.\<close>

fun js_add :: "jsnum \<Rightarrow> jsnum \<Rightarrow> jsnum" where
  "js_add (Fin a) (Fin b) = to_f64 (a + b)"
| "js_add NaN _ = NaN"
| "js_add _ NaN = NaN"
| "js_add PosInf NegInf = NaN"
| "js_add NegInf PosInf = NaN"
| "js_add PosInf _ = PosInf"
| "js_add _ PosInf = PosInf"
| "js_add NegInf _ = NegInf"
| "js_add _ NegInf = NegInf"

fun js_mul :: "jsnum \<Rightarrow> jsnum \<Rightarrow> jsnum" where
  "js_mul (Fin a) (Fin b) = to_f64 (a * b)"
| "js_mul NaN _ = NaN"
| "js_mul _ NaN = NaN"
| "js_mul a b =
     (let s = js_sgn a * js_sgn b in
      if s = 0 then NaN else if s < 0 then NegInf else PosInf)"

text \<open>
  \<open>Math.pow\<close> with a finite non-zero base and an integer exponent. The language fixes
  the result 1 for the exponent 0 and leaves every other result to the implementation,
  as an approximation of the power that need not be correctly rounded. The
  approximation of the implementation is the parameter \<open>pow\<close>.
\<close>

definition Math_pow :: "(real \<Rightarrow> int \<Rightarrow> jsnum) \<Rightarrow> real \<Rightarrow> int \<Rightarrow> jsnum" where
  "Math_pow pow b e = (if e = 0 then Fin 1 else pow b e)"

text \<open>
  The approximation used in the examples: the correctly rounded power, except for
  \<open>10^(-5)\<close>, where it is the double just below the correctly rounded one
  (\<open>Math.pow(10, -5)\<close> is \<open>0.000009999999999999999\<close> under Node).
\<close>

definition sample_pow :: "real \<Rightarrow> int \<Rightarrow> jsnum" where
  "sample_pow b e =
     (if b = 10 \<and> e = - 5 then Fin (368934881474191 / 36893488147419103232)
      else to_f64 (b powi e))"

text \<open>The comparison \<open>v < c\<close> with a finite constant \<open>c\<close>: false on not-a-number.\<close>

fun js_less :: "jsnum \<Rightarrow> real \<Rightarrow> bool" where
  "js_less NaN c = False"
| "js_less NegInf c = True"
| "js_less PosInf c = False"
| "js_less (Fin x) c = (x < c)"

section \<open>The reflectivity colour scale (server/index.js)\<close>

type_synonym rgba = "nat \<times> nat \<times> nat \<times> nat"

definition getColorForReflectivity :: "jsnum \<Rightarrow> rgba" where
  "getColorForReflectivity dbz =
     (if js_less dbz 5 then (0, 0, 0, 0)
      else if js_less dbz 10 then (4, 233, 231, 180)
      else if js_less dbz 15 then (1, 159, 244, 200)
      else if js_less dbz 20 then (3, 0, 244, 220)
      else if js_less dbz 25 then (2, 253, 2, 230)
      else if js_less dbz 30 then (1, 197, 1, 240)
      else if js_less dbz 35 then (0, 142, 0, 250)
      else if js_less dbz 40 then (253, 248, 2, 255)
      else if js_less dbz 45 then (229, 188, 0, 255)
      else if js_less dbz 50 then (253, 139, 0, 255)
      else if js_less dbz 55 then (212, 0, 0, 255)
      else if js_less dbz 60 then (188, 0, 0, 255)
      else if js_less dbz 65 then (248, 0, 253, 255)
      else (153, 85, 201, 255))"

section \<open>The GRIB2 parser (mrmsParser.js)\<close>

subsection \<open>Buffers and bit reads\<close>

type_synonym buffer = "8 word list"

text \<open>
  \<open>(buffer[byteIndex] >> bitIndex) & 1\<close> at the bit position \<open>pos\<close>, counted from the
  most significant bit of byte 0. An index past the end of the buffer reads
  \<open>undefined\<close>, which the shift turns into 0.
\<close>

definition bitAt :: "buffer \<Rightarrow> nat \<Rightarrow> bool" where
  "bitAt buf pos =
     (let byteIndex = pos div 8; bitIndex = 7 - pos mod 8 in
      byteIndex < length buf \<and> bit (buf ! byteIndex) bitIndex)"

text \<open>
  The loop of \<open>readBits\<close>. The operators \<open><<\<close> and \<open>|\<close> work on 32-bit signed integers,
  so the accumulator is a 32-bit word, read as two's complement at the end.
\<close>

function readBitsLoop :: "buffer \<Rightarrow> nat \<Rightarrow> nat \<Rightarrow> nat \<Rightarrow> 32 word \<Rightarrow> 32 word" where
  "readBitsLoop buf bitOffset numBits i v =
     (if i < numBits
      then readBitsLoop buf bitOffset numBits (Suc i)
             (push_bit 1 v OR (if bitAt buf (bitOffset + i) then 1 else 0))
      else v)"
  by pat_completeness auto
termination
  by (relation "measure (\<lambda>(buf, bitOffset, numBits, i, v). numBits - i)") auto

declare readBitsLoop.simps [simp del]

definition readBits :: "buffer \<Rightarrow> nat \<Rightarrow> nat \<Rightarrow> int" where
  "readBits buf bitOffset numBits = sint (readBitsLoop buf bitOffset numBits 0 0)"

subsection \<open>Decoding the data section\<close>

text \<open>The bit-map test of cell \<open>i\<close>: true when the cell is present.\<close>

definition isMasked :: "buffer \<Rightarrow> nat \<Rightarrow> bool" where
  "isMasked bitMap i = bitAt bitMap i"

function decodeLoop ::
  "buffer \<Rightarrow> buffer option \<Rightarrow> nat \<Rightarrow> nat \<Rightarrow> jsnum \<Rightarrow> jsnum \<Rightarrow> jsnum \<Rightarrow>
   nat \<Rightarrow> nat \<Rightarrow> jsnum list \<Rightarrow> jsnum list" where
  "decodeLoop dataBuffer bitMap numberOfDataPoints numberOfBits referenceValue
     binaryScale decimalScale i bitPos values =
     (if i < numberOfDataPoints then
        (if (case bitMap of None \<Rightarrow> False | Some bm \<Rightarrow> \<not> isMasked bm i)
         then decodeLoop dataBuffer bitMap numberOfDataPoints numberOfBits referenceValue
                binaryScale decimalScale (Suc i) bitPos (values[i := NaN])
         else
           let packedValue = readBits dataBuffer bitPos numberOfBits
           in decodeLoop dataBuffer bitMap numberOfDataPoints numberOfBits referenceValue
                binaryScale decimalScale (Suc i) (bitPos + numberOfBits)
                (values[i := to_float32
                   (js_mul (js_add referenceValue
                      (js_mul (Fin (of_int packedValue)) binaryScale)) decimalScale)]))
      else values)"
  by pat_completeness auto
termination
  by (relation "measure (\<lambda>(d, bm, n, nb, r, bs, ds, i, bitPos, values). n - i)") auto

declare decodeLoop.simps [simp del]

definition decodeData ::
  "(real \<Rightarrow> int \<Rightarrow> jsnum) \<Rightarrow> buffer \<Rightarrow> buffer option \<Rightarrow> nat \<Rightarrow> nat \<Rightarrow> jsnum \<Rightarrow> int \<Rightarrow> int \<Rightarrow>
   jsnum list" where
  "decodeData pow dataBuffer bitMap numberOfDataPoints numberOfBits referenceValue
     binaryScaleFactor decimalScaleFactor =
     (let values = replicate numberOfDataPoints (Fin 0);
          binaryScale = Math_pow pow 2 binaryScaleFactor;
          decimalScale = Math_pow pow 10 (- decimalScaleFactor)
      in if numberOfBits = 0
         then map (\<lambda>_. to_float32 referenceValue) values
         else decodeLoop dataBuffer bitMap numberOfDataPoints numberOfBits referenceValue
                binaryScale decimalScale 0 0 values)"


subsection \<open>Reading fields of the buffer\<close>

text \<open>
  The exceptions of \<open>parseMRMSGrib2\<close>: its two own errors, and the range error that
  the buffer's read methods raise for an offset outside the buffer.
\<close>

datatype error = NotValidGrib2 | EditionNotSupported nat | RangeError

definition bind :: "error + 'a \<Rightarrow> ('a \<Rightarrow> error + 'b) \<Rightarrow> error + 'b" where
  "bind m f = (case m of Inl e \<Rightarrow> Inl e | Inr x \<Rightarrow> f x)"

definition be_nat :: "buffer \<Rightarrow> nat" where
  "be_nat bs = foldl (\<lambda>a b. 256 * a + unat b) 0 bs"

definition readUIntBE :: "nat \<Rightarrow> buffer \<Rightarrow> nat \<Rightarrow> error + nat" where
  "readUIntBE w buf off =
     (if off + w \<le> length buf then Inr (be_nat (take w (drop off buf))) else Inl RangeError)"

definition readUInt8 :: "buffer \<Rightarrow> nat \<Rightarrow> error + nat" where
  "readUInt8 = readUIntBE 1"

definition readUInt16BE :: "buffer \<Rightarrow> nat \<Rightarrow> error + nat" where
  "readUInt16BE = readUIntBE 2"

definition readUInt32BE :: "buffer \<Rightarrow> nat \<Rightarrow> error + nat" where
  "readUInt32BE = readUIntBE 4"

definition to_signed :: "nat \<Rightarrow> nat \<Rightarrow> int" where
  "to_signed w u = (if u < 2 ^ (w - 1) then int u else int u - 2 ^ w)"

definition readInt16BE :: "buffer \<Rightarrow> nat \<Rightarrow> error + int" where
  "readInt16BE buf off = map_sum id (to_signed 16) (readUIntBE 2 buf off)"

definition readInt32BE :: "buffer \<Rightarrow> nat \<Rightarrow> error + int" where
  "readInt32BE buf off = map_sum id (to_signed 32) (readUIntBE 4 buf off)"

text \<open>The value of the single-precision number with the bit pattern \<open>u\<close>.\<close>

definition float32_of_bits :: "nat \<Rightarrow> jsnum" where
  "float32_of_bits u =
     (let s = u div 2 ^ 31; e = (u div 2 ^ 23) mod 256; m = u mod 2 ^ 23;
          sg = (if s = 1 then - 1 else 1)
      in if e = 255 then (if m = 0 then (if s = 1 then NegInf else PosInf) else NaN)
         else if e = 0 then Fin (sg * real m * 2 powi (- 149))
         else Fin (sg * real (2 ^ 23 + m) * 2 powi (int e - 150)))"

definition readFloatBE :: "buffer \<Rightarrow> nat \<Rightarrow> error + jsnum" where
  "readFloatBE buf off = map_sum id float32_of_bits (readUIntBE 4 buf off)"

text \<open>\<open>buffer.slice(start, end)\<close> clips both ends to the buffer and never fails.\<close>

definition bufferSlice :: "buffer \<Rightarrow> nat \<Rightarrow> nat \<Rightarrow> buffer" where
  "bufferSlice buf start end' = drop start (take end' buf)"

text \<open>The division \<open>x / 1e6\<close> of an integer field.\<close>

definition div1e6 :: "int \<Rightarrow> jsnum" where
  "div1e6 x = to_f64 (real_of_int x / 1000000)"

subsection \<open>The sections of a message\<close>

text \<open>
  The result of \<open>parseMRMSGrib2\<close>. The field \<open>timestamp\<close> holds the six arguments of
  \<open>Date.UTC\<close> (year, month - 1, day, hour, minute, second); the field \<open>grid_values\<close>
  is the field \<open>values\<close> of the source.
\<close>

record grib =
  discipline :: nat
  timestamp :: "nat \<times> int \<times> nat \<times> nat \<times> nat \<times> nat"
  nx :: nat
  ny :: nat
  la1 :: jsnum
  lo1 :: jsnum
  la2 :: jsnum
  lo2 :: jsnum
  dx :: jsnum
  dy :: jsnum
  grid_values :: "jsnum list"
  numberOfDataPoints :: nat

text \<open>
  The body of \<open>parseMRMSGrib2\<close> is cut at its section comments: each part takes the
  buffer and the offset of its section and returns the fields it reads and the offset
  of the next section, or the first exception raised by one of its reads, in the
  order of the source.
\<close>

definition section1 ::
  "buffer \<Rightarrow> nat \<Rightarrow> error + ((nat \<times> nat \<times> nat \<times> nat \<times> nat \<times> nat) \<times> nat)" where
  "section1 buffer offset =
     bind (readUInt32BE buffer offset) (\<lambda>section1Length.
     bind (readUInt16BE buffer (offset + 12)) (\<lambda>year.
     bind (readUInt8 buffer (offset + 14)) (\<lambda>month.
     bind (readUInt8 buffer (offset + 15)) (\<lambda>day.
     bind (readUInt8 buffer (offset + 16)) (\<lambda>hour.
     bind (readUInt8 buffer (offset + 17)) (\<lambda>minute.
     bind (readUInt8 buffer (offset + 18)) (\<lambda>second.
     Inr ((year, month, day, hour, minute, second), offset + section1Length))))))))"

definition section2 :: "buffer \<Rightarrow> nat \<Rightarrow> error + nat" where
  "section2 buffer offset =
     bind (readUInt32BE buffer offset) (\<lambda>section2Length.
     bind (readUInt8 buffer (offset + 4)) (\<lambda>section2Number.
     Inr (if section2Number = 2 then offset + section2Length else offset)))"

definition section3 ::
  "buffer \<Rightarrow> nat \<Rightarrow>
   error + ((nat \<times> nat \<times> jsnum \<times> jsnum \<times> jsnum \<times> jsnum \<times> jsnum \<times> jsnum) \<times> nat)" where
  "section3 buffer offset =
     bind (readUInt32BE buffer offset) (\<lambda>section3Length.
     bind (readUInt32BE buffer (offset + 30)) (\<lambda>nx.
     bind (readUInt32BE buffer (offset + 34)) (\<lambda>ny.
     bind (readInt32BE buffer (offset + 46)) (\<lambda>la1.
     bind (readInt32BE buffer (offset + 50)) (\<lambda>lo1.
     bind (readInt32BE buffer (offset + 55)) (\<lambda>la2.
     bind (readInt32BE buffer (offset + 59)) (\<lambda>lo2.
     bind (readUInt32BE buffer (offset + 63)) (\<lambda>dx.
     bind (readUInt32BE buffer (offset + 67)) (\<lambda>dy.
     Inr ((nx, ny, div1e6 la1, div1e6 lo1, div1e6 la2, div1e6 lo2,
           div1e6 (int dx), div1e6 (int dy)),
          offset + section3Length))))))))))"

definition section4 :: "buffer \<Rightarrow> nat \<Rightarrow> error + nat" where
  "section4 buffer offset =
     bind (readUInt32BE buffer offset) (\<lambda>section4Length.
     Inr (offset + section4Length))"

definition section5 ::
  "buffer \<Rightarrow> nat \<Rightarrow> error + ((nat \<times> jsnum \<times> int \<times> int \<times> nat) \<times> nat)" where
  "section5 buffer offset =
     bind (readUInt32BE buffer offset) (\<lambda>section5Length.
     bind (readUInt32BE buffer (offset + 5)) (\<lambda>numberOfDataPoints.
     bind (readFloatBE buffer (offset + 11)) (\<lambda>referenceValue.
     bind (readInt16BE buffer (offset + 15)) (\<lambda>binaryScaleFactor.
     bind (readInt16BE buffer (offset + 17)) (\<lambda>decimalScaleFactor.
     bind (readUInt8 buffer (offset + 19)) (\<lambda>numberOfBits.
     Inr ((numberOfDataPoints, referenceValue, binaryScaleFactor, decimalScaleFactor,
           numberOfBits),
          offset + section5Length)))))))"

definition section6 :: "buffer \<Rightarrow> nat \<Rightarrow> error + (buffer option \<times> nat)" where
  "section6 buffer offset =
     bind (readUInt32BE buffer offset) (\<lambda>section6Length.
     bind (readUInt8 buffer (offset + 5)) (\<lambda>bitMapIndicator.
     Inr (if bitMapIndicator = 0
          then Some (bufferSlice buffer (offset + 6) (offset + section6Length))
          else None,
          offset + section6Length)))"

definition section7 :: "buffer \<Rightarrow> nat \<Rightarrow> error + buffer" where
  "section7 buffer offset =
     bind (readUInt32BE buffer offset) (\<lambda>section7Length.
     Inr (bufferSlice buffer (offset + 5) (offset + section7Length)))"

text \<open>The four bytes of the string \<open>GRIB\<close>.\<close>

definition GRIB :: buffer where
  "GRIB = [0x47, 0x52, 0x49, 0x42]"

definition parseMRMSGrib2 :: "(real \<Rightarrow> int \<Rightarrow> jsnum) \<Rightarrow> buffer \<Rightarrow> error + grib" where
  "parseMRMSGrib2 pow buffer =
     (if take 4 buffer \<noteq> GRIB then Inl NotValidGrib2
      else
        bind (readUInt8 buffer 6) (\<lambda>disc.
        bind (readUInt8 buffer 7) (\<lambda>edition.
        if edition \<noteq> 2 then Inl (EditionNotSupported edition)
        else
          bind (section1 buffer 16) (\<lambda>((year, month, day, hour, minute, second), offset).
          bind (section2 buffer offset) (\<lambda>offset.
          bind (section3 buffer offset) (\<lambda>((nx', ny', la1', lo1', la2', lo2', dx', dy'), offset).
          bind (section4 buffer offset) (\<lambda>offset.
          bind (section5 buffer offset) (\<lambda>((n, referenceValue, binaryScaleFactor,
                                            decimalScaleFactor, numberOfBits), offset).
          bind (section6 buffer offset) (\<lambda>(bitMap, offset).
          bind (section7 buffer offset) (\<lambda>dataBuffer.
          Inr \<lparr>discipline = disc,
               timestamp = (year, int month - 1, day, hour, minute, second),
               nx = nx', ny = ny', la1 = la1', lo1 = lo1', la2 = la2', lo2 = lo2',
               dx = dx', dy = dy',
               grid_values = decodeData pow dataBuffer bitMap n numberOfBits referenceValue
                               binaryScaleFactor decimalScaleFactor,
               numberOfDataPoints = n\<rparr>))))))))))"

subsection \<open>Reference notions used to state the properties\<close>


text \<open>A cell is present when there is no bit map or its bit in the bit map is 1.\<close>

definition present :: "buffer option \<Rightarrow> nat \<Rightarrow> bool" where
  "present bitMap i = (case bitMap of None \<Rightarrow> True | Some bm \<Rightarrow> isMasked bm i)"

text \<open>
  The bit cursor in front of cell \<open>i\<close> when the cursor starts at 0 and moves by
  \<open>numberOfBits\<close> for each present cell and not at all for a missing one.
\<close>

definition spec_cursor :: "buffer option \<Rightarrow> nat \<Rightarrow> nat \<Rightarrow> nat" where
  "spec_cursor bitMap numberOfBits i =
     numberOfBits * length (filter (present bitMap) [0..<i])"


subsection \<open>A sample message\<close>

text \<open>
  Sections 0 to 6 of a message with a 1 by 1 grid: indicator (16 bytes), identification
  (21 bytes, 2024-05-17 12:30:00), no local-use section, grid definition (72 bytes),
  product definition (9 bytes), data representation (21 bytes: one data point,
  reference value 0, both scale factors 0, 8 bits per value) and bit-map section
  (6 bytes, indicator 255: no bit map). The low bytes of the grid-definition template
  number and of the data-representation template number are the parameters \<open>g\<close> and
  \<open>p\<close>. The data section starts at offset 145.
\<close>

definition sample_header :: "8 word \<Rightarrow> 8 word \<Rightarrow> buffer" where
  "sample_header g p =
     [71, 82, 73, 66, 0, 0, 0, 2, 0, 0, 0, 0, 0, 0, 0, 0, 0, 0, 0, 21, 1, 0, 161, 0, 0,
      2, 1, 1, 7, 232, 5, 17, 12, 30, 0, 0, 1, 0, 0, 0, 72, 3, 0, 0, 0, 0, 1, 0, 0, 0,
      g, 6, 0, 0, 0, 0, 0, 0, 0, 0, 0, 0, 0, 0, 0, 0, 0, 0, 0, 0, 1, 0, 0, 0, 1, 0, 0,
      0, 0, 0, 0, 0, 0, 3, 71, 40, 56, 13, 181, 153, 8, 48, 1, 49, 64, 136, 17, 225,
      143, 120, 0, 0, 39, 16, 0, 0, 39, 16, 0, 0, 0, 0, 9, 4, 0, 0, 0, 0, 0, 0, 0, 21,
      5, 0, 0, 0, 1, 0, p, 0, 0, 0, 0, 0, 0, 0, 0, 8, 0, 0, 0, 0, 6, 6, 255]"

text \<open>The whole message: the data section holds the byte \<open>0xFF\<close>, then the end marker.\<close>

definition sample_message :: buffer where
  "sample_message = sample_header 0 0 @ [0, 0, 0, 6, 7, 0xFF] @ [0x37, 0x37, 0x37, 0x37]"

section \<open>The product cache (server/index.js)\<close>









section \<open>Properties of the rounding\<close>

lemma round_half_even_of_int [simp]: "round_half_even (of_int m) = m"
  by (simp add: round_half_even_def)

lemma ilog2_ge1:
  assumes "1 \<le> \<bar>x\<bar>"
  shows "2 powi (ilog2 x) \<le> \<bar>x\<bar>" and "\<bar>x\<bar> < 2 powi (ilog2 x + 1)"
proof -
  define n where "n = \<lfloor>\<bar>x\<bar>\<rfloor>"
  have n: "0 < n" using assms by (simp add: n_def)
  have il: "ilog2 x = bitlen n - 1" using assms by (simp add: ilog2_def n_def)
  from bitlen_bounds [OF n] have b: "2 ^ nat (bitlen n - 1) \<le> n" "n < 2 ^ nat (bitlen n)"
    by simp_all
  have "bitlen n \<noteq> 0" using n by (simp add: bitlen_eq_zero_iff)
  then have bp: "0 < bitlen n" using bitlen_nonneg [of n] by linarith
  have "2 powi (bitlen n - 1) = (2::real) ^ nat (bitlen n - 1)"
    using bp by (simp add: power_int_def)
  also have "\<dots> \<le> of_int n" using b(1)
    by (metis of_int_le_iff of_int_numeral of_int_power)
  also have "\<dots> \<le> \<bar>x\<bar>" by (simp add: n_def)
  finally show "2 powi (ilog2 x) \<le> \<bar>x\<bar>" by (simp add: il)
  have "\<bar>x\<bar> < of_int (n + 1)" unfolding n_def by linarith
  also have "of_int (n + 1) \<le> (2::real) ^ nat (bitlen n)"
    using b(2) by (metis zless_imp_add1_zle of_int_le_iff of_int_numeral of_int_power)
  also have "\<dots> = 2 powi (bitlen n)" using bp by (simp add: power_int_def)
  finally show "\<bar>x\<bar> < 2 powi (ilog2 x + 1)" by (simp add: il)
qed

lemma ilog2_lt1:
  assumes "x \<noteq> 0" "\<bar>x\<bar> < 1"
  shows "2 powi (ilog2 x) \<le> \<bar>x\<bar>" and "\<bar>x\<bar> < 2 powi (ilog2 x + 1)"
proof -
  define y where "y = 1 / \<bar>x\<bar>"
  define n where "n = \<lceil>y\<rceil> - 1"
  have y1: "1 < y" using assms by (simp add: y_def)
  have ypos: "0 < y" using y1 by simp
  have n: "0 < n" using y1 unfolding n_def by linarith
  have il: "ilog2 x = - bitlen n" using assms by (simp add: ilog2_def n_def y_def)
  from bitlen_bounds [OF n] have b: "2 ^ nat (bitlen n - 1) \<le> n" "n < 2 ^ nat (bitlen n)"
    by simp_all
  have "bitlen n \<noteq> 0" using n by (simp add: bitlen_eq_zero_iff)
  then have bp: "0 < bitlen n" using bitlen_nonneg [of n] by linarith
  have x_eq: "\<bar>x\<bar> = 1 / y" using assms by (simp add: y_def)
  have "y \<le> of_int (n + 1)" unfolding n_def by simp
  also have "of_int (n + 1) \<le> (2::real) ^ nat (bitlen n)"
    using b(2) by (metis zless_imp_add1_zle of_int_le_iff of_int_numeral of_int_power)
  finally have yle: "y \<le> 2 ^ nat (bitlen n)" .
  have "2 powi (ilog2 x) = 1 / (2::real) ^ nat (bitlen n)"
    using bp by (simp add: il power_int_def divide_simps)
  also have "\<dots> \<le> 1 / y" using yle ypos by (simp add: frac_le)
  finally show "2 powi (ilog2 x) \<le> \<bar>x\<bar>" by (simp add: x_eq)
  have "(2::real) ^ nat (bitlen n - 1) \<le> of_int n" using b(1)
    by (metis of_int_le_iff of_int_numeral of_int_power)
  also have "of_int n < y" unfolding n_def by linarith
  finally have ylt: "(2::real) ^ nat (bitlen n - 1) < y" .
  have "1 / y < 1 / (2::real) ^ nat (bitlen n - 1)"
    using ylt by (simp add: frac_less2)
  also have "\<dots> = 2 powi (ilog2 x + 1)"
  proof -
    have "ilog2 x + 1 = - int (nat (bitlen n - 1))" using bp by (simp add: il)
    then have "(2::real) powi (ilog2 x + 1) = 2 powi (- int (nat (bitlen n - 1)))" by simp
    also have "\<dots> = 1 / 2 ^ nat (bitlen n - 1)"
      by (simp only: power_int_minus power_int_of_nat) (simp add: divide_simps)
    finally show ?thesis by simp
  qed
  finally show "\<bar>x\<bar> < 2 powi (ilog2 x + 1)" by (simp add: x_eq)
qed

lemma ilog2_bounds:
  assumes "x \<noteq> 0"
  shows "2 powi (ilog2 x) \<le> \<bar>x\<bar>" and "\<bar>x\<bar> < 2 powi (ilog2 x + 1)"
  using ilog2_ge1 [of x] ilog2_lt1 [of x] assms by (cases "1 \<le> \<bar>x\<bar>"; simp)+

lemma ilog2_unique:
  assumes "2 powi k \<le> \<bar>x\<bar>" "\<bar>x\<bar> < 2 powi (k + 1)"
  shows "ilog2 x = k"
proof -
  have "0 < (2::real) powi k" by simp
  with assms(1) have "0 < \<bar>x\<bar>" by linarith
  then have nz: "x \<noteq> 0" by simp
  note b = ilog2_bounds [OF nz]
  have "(2::real) powi k < 2 powi (ilog2 x + 1)" using assms(1) b(2) by linarith
  then have 1: "k < ilog2 x + 1"
    using power_int_increasing [of "ilog2 x + 1" k "2::real"] by (cases "k < ilog2 x + 1") auto
  have "(2::real) powi (ilog2 x) < 2 powi (k + 1)" using assms(2) b(1) by linarith
  then have 2: "ilog2 x < k + 1"
    using power_int_increasing [of "k + 1" "ilog2 x" "2::real"] by (cases "ilog2 x < k + 1") auto
  from 1 2 show ?thesis by simp
qed


lemma round_half_even_le:
  assumes "z \<le> of_int N"
  shows "round_half_even z \<le> N"
proof -
  have f: "\<lfloor>z\<rfloor> \<le> N" using assms by (simp add: floor_le_iff)
  show ?thesis
  proof (cases "z - of_int \<lfloor>z\<rfloor> < 1 / 2")
    case True
    then show ?thesis using f by (simp add: round_half_even_def Let_def)
  next
    case False
    then have "of_int \<lfloor>z\<rfloor> < z" by linarith
    with assms have "of_int \<lfloor>z\<rfloor> < (of_int N :: real)" by linarith
    then have "\<lfloor>z\<rfloor> < N" by simp
    then show ?thesis by (simp add: round_half_even_def Let_def)
  qed
qed

lemma round_half_even_ge:
  assumes "of_int N \<le> z"
  shows "N \<le> round_half_even z"
proof -
  have "N \<le> \<lfloor>z\<rfloor>" using assms by (simp add: le_floor_iff)
  then show ?thesis by (simp add: round_half_even_def Let_def)
qed

lemma ieee_round_exact:
  assumes "x = of_int m * 2 powi (max emin (ilog2 x) - int p + 1)"
    and "\<bar>x\<bar> < 2 powi (emax + 1)"
  shows "ieee_round p emin emax x = Fin x"
proof (cases "x = 0")
  case True
  then show ?thesis by (simp add: ieee_round_def)
next
  case False
  define u :: real where "u = 2 powi (max emin (ilog2 x) - int p + 1)"
  have u: "0 < u" by (simp add: u_def)
  have "x / u = of_int m" using assms(1) u by (simp add: u_def [symmetric])
  then have "of_int (round_half_even (x / u)) * u = x"
    using assms(1) by (simp add: u_def [symmetric])
  then show ?thesis
    using False assms(2) by (simp add: ieee_round_def Let_def u_def [symmetric])
qed

lemma ieee_round_of_int:
  assumes "\<bar>k\<bar> < 2 ^ p" and "emin \<le> 0" and "int p \<le> emax + 1"
  shows "ieee_round p emin emax (of_int k) = Fin (of_int k)"
proof (cases "k = 0")
  case True
  then show ?thesis by (simp add: ieee_round_def)
next
  case False
  define x :: real where "x = of_int k"
  define e where "e = ilog2 x"
  have nz: "x \<noteq> 0" using False by (simp add: x_def)
  note b = ilog2_bounds [OF nz, folded e_def]
  have "1 \<le> \<bar>k\<bar>" using False by linarith
  then have "(1::real) \<le> of_int \<bar>k\<bar>" by (simp only: of_int_1_le_iff)
  then have x1: "1 \<le> \<bar>x\<bar>" by (simp add: x_def)
  have "(of_int \<bar>k\<bar> :: real) < of_int (2 ^ p)" using assms(1) by (simp only: of_int_less_iff)
  then have xp: "\<bar>x\<bar> < 2 ^ p" by (simp add: x_def)
  have "(2::real) powi 0 < 2 powi (e + 1)" using x1 b(2) by simp
  then have e0: "0 \<le> e"
    using power_int_increasing [of "e + 1" 0 "2::real"] by (cases "0 \<le> e") auto
  have "(2::real) powi e < 2 powi (int p)" using xp b(1) by simp
  then have ep: "e < int p"
    using power_int_increasing [of "int p" e "2::real"] by (cases "e < int p") auto
  have mx: "max emin e = e" using e0 assms(2) by simp
  define d where "d = nat (int p - 1 - e)"
  have d: "e - int p + 1 = - int d" using ep by (simp add: d_def)
  have "x = of_int (k * 2 ^ d) * 2 powi (max emin (ilog2 x) - int p + 1)"
    unfolding e_def [symmetric] mx d
    by (simp add: x_def power_int_minus field_simps)
  moreover have "\<bar>x\<bar> < 2 powi (emax + 1)"
  proof -
    have "(2::real) ^ p = 2 powi (int p)" by simp
    also have "\<dots> \<le> 2 powi (emax + 1)" using assms(3) by (intro power_int_increasing) simp_all
    finally show ?thesis using xp by linarith
  qed
  ultimately show ?thesis unfolding x_def by (rule ieee_round_exact)
qed

lemma to_f64_of_int: "\<bar>k\<bar> < 2 ^ 53 \<Longrightarrow> to_f64 (of_int k) = Fin (of_int k)"
  unfolding to_f64_def by (rule ieee_round_of_int) simp_all

lemma to_f32_of_int: "\<bar>k\<bar> < 2 ^ 24 \<Longrightarrow> to_f32 (of_int k) = Fin (of_int k)"
  unfolding to_f32_def by (rule ieee_round_of_int) simp_all

lemma ieee_round_idem:
  assumes "ieee_round p emin emax x = Fin y" and "0 < p"
  shows "ieee_round p emin emax y = Fin y"
proof (cases "x = 0")
  case True
  with assms show ?thesis by (simp add: ieee_round_def)
next
  case False
  define e where "e = max emin (ilog2 x)"
  define u :: real where "u = 2 powi (e - int p + 1)"
  define m where "m = round_half_even (x / u)"
  have u: "0 < u" by (simp add: u_def)
  have y: "y = of_int m * u" and ylt: "\<bar>y\<bar> < 2 powi (emax + 1)"
    using assms(1) False
    by (auto simp: ieee_round_def Let_def e_def [symmetric] u_def [symmetric] m_def [symmetric]
        split: if_splits)
  show ?thesis
  proof (cases "y = 0")
    case True
    then show ?thesis by (simp add: ieee_round_def)
  next
    case ynz: False
    note bx = ilog2_bounds [OF False]
    note by' = ilog2_bounds [OF ynz]
    have "\<bar>x\<bar> < 2 powi (e + 1)"
    proof -
      have "(2::real) powi (ilog2 x + 1) \<le> 2 powi (e + 1)"
        by (intro power_int_increasing) (simp_all add: e_def)
      with bx(2) show ?thesis by linarith
    qed
    moreover have "(2::real) powi (e + 1) = 2 ^ p * u"
    proof -
      have "(2::real) powi (e + 1) = 2 powi (int p + (e - int p + 1))" by simp
      also have "\<dots> = 2 powi (int p) * 2 powi (e - int p + 1)"
        by (rule power_int_add) simp
      finally show ?thesis by (simp add: u_def)
    qed
    ultimately have xu: "\<bar>x / u\<bar> < 2 ^ p" using u by (simp add: field_simps)
    from xu have "x / u < 2 ^ p \<and> - (x / u) < 2 ^ p" by (simp only: abs_less_iff)
    then have xb: "x / u \<le> of_int (2 ^ p)" "of_int (- (2 ^ p)) \<le> x / u" by simp_all
    have mb: "m \<le> 2 ^ p" "- (2 ^ p) \<le> m"
      unfolding m_def
      using round_half_even_le [OF xb(1)] round_half_even_ge [OF xb(2)] by simp_all
    then have mabs: "\<bar>m\<bar> \<le> 2 ^ p" by simp
    have yle: "\<bar>y\<bar> \<le> 2 powi (e + 1)"
    proof -
      have "\<bar>y\<bar> = of_int \<bar>m\<bar> * u" using u by (simp add: y abs_mult)
      also have "\<dots> \<le> 2 ^ p * u"
      proof -
        have "(of_int \<bar>m\<bar> :: real) \<le> of_int (2 ^ p)" using mabs by (simp only: of_int_le_iff)
        then show ?thesis using u by simp
      qed
      finally show ?thesis using \<open>2 powi (e + 1) = 2 ^ p * u\<close> by simp
    qed
    define e' where "e' = max emin (ilog2 y)"
    have "\<exists>m'. y = of_int m' * 2 powi (e' - int p + 1)"
    proof (cases "e' \<le> e")
      case True
      define d where "d = nat (e - e')"
      have "e - int p + 1 = int d + (e' - int p + 1)" using True by (simp add: d_def)
      then have "u = 2 powi (int d + (e' - int p + 1))" by (simp only: u_def)
      also have "\<dots> = 2 ^ d * 2 powi (e' - int p + 1)"
        by (subst power_int_add) simp_all
      finally have "y = of_int (m * 2 ^ d) * 2 powi (e' - int p + 1)"
        by (simp add: y)
      then show ?thesis ..
    next
      case False
      then have "e < ilog2 y" and emin: "emin \<le> e" by (auto simp: e'_def e_def)
      then have "(2::real) powi (e + 1) \<le> 2 powi (ilog2 y)"
        by (intro power_int_increasing) simp_all
      with by'(1) yle have yeq: "\<bar>y\<bar> = 2 powi (e + 1)" by linarith
      then have "ilog2 y = e + 1"
        by (intro ilog2_unique) (simp_all add: power_int_strict_increasing)
      then have e'eq: "e' = e + 1" using emin by (simp add: e'_def)
      have pw: "(2::real) powi (e + 1) = 2 ^ (p - 1) * 2 powi (e' - int p + 1)"
      proof -
        have "e + 1 = int (p - 1) + (e' - int p + 1)"
          using assms(2) by (simp add: e'eq of_nat_diff)
        then have "(2::real) powi (e + 1) = 2 powi (int (p - 1) + (e' - int p + 1))"
          by (simp only:)
        also have "\<dots> = 2 powi (int (p - 1)) * 2 powi (e' - int p + 1)"
          by (rule power_int_add) simp
        finally show ?thesis by simp
      qed
      show ?thesis
      proof (cases "0 \<le> y")
        case True
        with yeq pw have "y = of_int (2 ^ (p - 1)) * 2 powi (e' - int p + 1)" by simp
        then show ?thesis ..
      next
        case False
        with yeq pw have "y = of_int (- (2 ^ (p - 1))) * 2 powi (e' - int p + 1)" by simp
        then show ?thesis ..
      qed
    qed
    then obtain m' where "y = of_int m' * 2 powi (max emin (ilog2 y) - int p + 1)"
      unfolding e'_def by blast
    from this ylt show ?thesis by (rule ieee_round_exact)
  qed
qed

lemma to_float32_idem: "to_float32 (to_float32 v) = to_float32 v"
proof (cases v)
  case (Fin x)
  show ?thesis
  proof (cases "to_f32 x")
    case (Fin y)
    then have "to_f32 y = Fin y" unfolding to_f32_def by (rule ieee_round_idem) simp
    with Fin \<open>v = Fin x\<close> show ?thesis by simp
  qed (simp_all add: \<open>v = Fin x\<close>)
qed simp_all

lemma round_half_even_error: "\<bar>of_int (round_half_even z) - z\<bar> \<le> 1 / 2"
proof -
  have "of_int \<lfloor>z\<rfloor> \<le> z" "z < of_int \<lfloor>z\<rfloor> + 1" by linarith+
  then show ?thesis by (auto simp: round_half_even_def Let_def)
qed


lemma to_f64_error:
  assumes "\<bar>x\<bar> < 2 powi 1023"
  shows "\<exists>y. to_f64 x = Fin y \<and> \<bar>y - x\<bar> \<le> \<bar>x\<bar> * 2 powi (- 53) + 2 powi (- 1075)"
proof (cases "x = 0")
  case True
  then show ?thesis by (simp add: to_f64_def ieee_round_def)
next
  case False
  define e where "e = max (- 1022) (ilog2 x)"
  define u :: real where "u = 2 powi (e - 52)"
  define y where "y = of_int (round_half_even (x / u)) * u"
  have u: "0 < u" by (simp add: u_def)
  note b = ilog2_bounds [OF False]
  have "(2::real) powi (ilog2 x) < 2 powi 1023" using b(1) assms by linarith
  then have "ilog2 x < 1023"
    using power_int_increasing [of 1023 "ilog2 x" "2::real"] by (cases "ilog2 x < 1023") auto
  then have e1022: "e \<le> 1022" by (simp add: e_def)
  have half: "u / 2 = 2 powi (e - 53)"
  proof -
    have "e - 52 = (e - 53) + 1" by simp
    then have "u = 2 powi ((e - 53) + 1)" by (simp only: u_def)
    also have "\<dots> = 2 powi (e - 53) * 2" by (subst power_int_add) simp_all
    finally show ?thesis by simp
  qed
  have "y - x = (of_int (round_half_even (x / u)) - x / u) * u"
    using u by (simp add: y_def left_diff_distrib)
  then have "\<bar>y - x\<bar> = \<bar>of_int (round_half_even (x / u)) - x / u\<bar> * u"
    using u by (simp add: abs_mult)
  also have "\<dots> \<le> 1 / 2 * u"
    using u round_half_even_error [of "x / u"] by (intro mult_right_mono) simp_all
  finally have err: "\<bar>y - x\<bar> \<le> 2 powi (e - 53)" using half by simp
  have bound: "2 powi (e - 53) \<le> \<bar>x\<bar> * 2 powi (- 53) + 2 powi (- 1075)"
  proof (cases "- 1022 \<le> ilog2 x")
    case True
    then have "e - 53 = ilog2 x + (- 53)" by (simp add: e_def)
    then have "(2::real) powi (e - 53) = 2 powi (ilog2 x + (- 53))" by (simp only:)
    also have "\<dots> = 2 powi (ilog2 x) * 2 powi (- 53)"
      by (rule power_int_add) simp
    also have "\<dots> \<le> \<bar>x\<bar> * 2 powi (- 53)"
      using b(1) by (intro mult_right_mono) simp_all
    finally show ?thesis by (simp add: add_increasing2)
  next
    case False
    then have "e = - 1022" by (simp add: e_def)
    then have "(2::real) powi (e - 53) = 2 powi (- 1075)" by simp
    then show ?thesis by (simp add: add_increasing)
  qed
  have "(2::real) powi (e - 53) \<le> 2 powi 969"
    using e1022 by (intro power_int_increasing) simp_all
  with err have "\<bar>y\<bar> \<le> \<bar>x\<bar> + 2 powi 969" by linarith
  also have "\<dots> < 2 powi 1023 + 2 powi 969" using assms by simp
  also have "\<dots> \<le> 2 powi 1023 + (2::real) powi 1023"
    by (intro add_left_mono power_int_increasing) simp_all
  also have "\<dots> = 2 powi (1023 + 1)" by (subst power_int_add) simp_all
  finally have "\<not> 2 powi (1023 + 1) \<le> \<bar>y\<bar>" by simp
  then have "to_f64 x = Fin y"
    using \<open>x \<noteq> 0\<close> by (simp add: to_f64_def ieee_round_def Let_def e_def u_def y_def)
  with err bound show ?thesis by (intro exI [of _ y]) simp
qed


section \<open>Properties of the bit reader\<close>

lemma bitAt_pad: "bitAt (buf @ replicate k 0) pos = bitAt buf pos"
  by (auto simp: bitAt_def Let_def nth_append)

lemma readBitsLoop_pad:
  "readBitsLoop (buf @ replicate k 0) off nb i v = readBitsLoop buf off nb i v"
proof (induction buf off nb i v rule: readBitsLoop.induct)
  case (1 buf off nb i v)
  show ?case
  proof (cases "i < nb")
    case True
    then show ?thesis
      using "1.IH" [OF True]
      by (subst readBitsLoop.simps, subst (2) readBitsLoop.simps) (simp add: bitAt_pad)
  next
    case False
    then show ?thesis
      by (subst readBitsLoop.simps, subst (2) readBitsLoop.simps) simp
  qed
qed

lemma readBits_pad: "readBits (buf @ replicate k 0) off nb = readBits buf off nb"
  by (simp add: readBits_def readBitsLoop_pad)






section \<open>Properties of the decoder\<close>

lemma length_decodeLoop:
  "length (decodeLoop d bm n nb r bs ds i bitPos vs) = length vs"
proof (induction d bm n nb r bs ds i bitPos vs rule: decodeLoop.induct)
  case (1 d bm n nb r bs ds i bitPos vs)
  show ?case
  proof (cases "i < n")
    case False
    then show ?thesis by (subst decodeLoop.simps) simp
  next
    case True
    show ?thesis
    proof (cases "case bm of None \<Rightarrow> False | Some b \<Rightarrow> \<not> isMasked b i")
      case m: True
      from "1.IH"(1) [OF True m] True m show ?thesis
        by (subst decodeLoop.simps) simp
    next
      case m: False
      from "1.IH"(2) [OF True m refl] True m show ?thesis
        by (subst decodeLoop.simps) simp
    qed
  qed
qed

lemma decodeLoop_pad:
  "decodeLoop (d @ replicate k 0) bm n nb r bs ds i bitPos vs =
   decodeLoop d bm n nb r bs ds i bitPos vs"
proof (induction d bm n nb r bs ds i bitPos vs rule: decodeLoop.induct)
  case (1 d bm n nb r bs ds i bitPos vs)
  show ?case
  proof (cases "i < n")
    case False
    then show ?thesis
      by (subst decodeLoop.simps, subst (2) decodeLoop.simps) simp
  next
    case True
    show ?thesis
    proof (cases "case bm of None \<Rightarrow> False | Some b \<Rightarrow> \<not> isMasked b i")
      case m: True
      from "1.IH"(1) [OF True m] True m show ?thesis
        by (subst decodeLoop.simps, subst (2) decodeLoop.simps) simp
    next
      case m: False
      from "1.IH"(2) [OF True m refl] True m show ?thesis
        by (subst decodeLoop.simps, subst (2) decodeLoop.simps) (simp add: readBits_pad)
    qed
  qed
qed

lemma present_iff:
  "present bm i \<longleftrightarrow> \<not> (case bm of None \<Rightarrow> False | Some b \<Rightarrow> \<not> isMasked b i)"
  by (simp add: present_def split: option.splits)

lemma decodeLoop_nth:
  "length vs = n \<Longrightarrow> j < n \<Longrightarrow>
   decodeLoop d bm n nb r bs ds i bitPos vs ! j =
     (if j < i then vs ! j
      else if present bm j
        then to_float32 (js_mul (js_add r (js_mul
               (Fin (of_int (readBits d (bitPos + nb * length (filter (present bm) [i..<j])) nb)))
               bs)) ds)
        else NaN)"
proof (induction d bm n nb r bs ds i bitPos vs rule: decodeLoop.induct)
  case (1 d bm n nb r bs ds i bitPos vs)
  show ?case
  proof (cases "i < n")
    case False
    with "1.prems" show ?thesis by (subst decodeLoop.simps) simp
  next
    case True
    show ?thesis
    proof (cases "present bm i")
      case p: False
      then have m: "case bm of None \<Rightarrow> False | Some b \<Rightarrow> \<not> isMasked b i"
        by (simp add: present_iff)
      have len: "length (vs[i := NaN]) = n" using "1.prems" by simp
      have unfold: "decodeLoop d bm n nb r bs ds i bitPos vs =
                    decodeLoop d bm n nb r bs ds (Suc i) bitPos (vs[i := NaN])"
        using True m by (subst decodeLoop.simps) simp
      show ?thesis
      proof (cases "j < Suc i")
        case True
        with "1.IH"(1) [OF \<open>i < n\<close> m len "1.prems"(2)] "1.prems" p show ?thesis
          unfolding unfold by (cases "j = i") auto
      next
        case False
        then have "[i..<j] = i # [Suc i..<j]" by (simp add: upt_conv_Cons)
        with "1.IH"(1) [OF \<open>i < n\<close> m len "1.prems"(2)] False p show ?thesis
          unfolding unfold by simp
      qed
    next
      case p: True
      then have m: "\<not> (case bm of None \<Rightarrow> False | Some b \<Rightarrow> \<not> isMasked b i)"
        by (simp add: present_iff)
      define v where
        "v = to_float32 (js_mul (js_add r (js_mul (Fin (of_int (readBits d bitPos nb))) bs)) ds)"
      have len: "length (vs[i := v]) = n" using "1.prems" by simp
      have unfold: "decodeLoop d bm n nb r bs ds i bitPos vs =
                    decodeLoop d bm n nb r bs ds (Suc i) (bitPos + nb) (vs[i := v])"
        using True m by (subst decodeLoop.simps) (simp add: v_def)
      have ih: "decodeLoop d bm n nb r bs ds (Suc i) (bitPos + nb) (vs[i := v]) ! j =
         (if j < Suc i then vs[i := v] ! j
          else if present bm j
            then to_float32 (js_mul (js_add r (js_mul
                   (Fin (of_int (readBits d
                      (bitPos + nb + nb * length (filter (present bm) [Suc i..<j])) nb)))
                   bs)) ds)
            else NaN)"
        using "1.IH"(2) [OF \<open>i < n\<close> m refl _ "1.prems"(2)] len by (simp add: v_def)
      show ?thesis
      proof (cases "j < Suc i")
        case True
        with ih "1.prems" p show ?thesis
          unfolding unfold by (cases "j = i") (auto simp: v_def)
      next
        case False
        then have "[i..<j] = i # [Suc i..<j]" by (simp add: upt_conv_Cons)
        with ih False p show ?thesis
          unfolding unfold by (simp add: add.assoc)
      qed
    qed
  qed
qed

lemma decodeData_length:
  "length (decodeData pow d bm n nb r e dd) = n"
  by (simp add: decodeData_def Let_def length_decodeLoop)

text \<open>
  Every cell of the grid: the rounded reference value at bit width 0; otherwise
  not-a-number at a missing cell, and at a present cell the rounding to single
  precision of the double \<open>(R + X * binaryScale) * decimalScale\<close>, with \<open>X\<close> read at
  the cursor of the cell.
\<close>

lemma decodeData_nth:
  assumes "i < n"
  shows "decodeData pow d bm n nb R E D ! i =
     (if nb = 0 then to_float32 R
      else if present bm i
        then to_float32 (js_mul (js_add R (js_mul
               (Fin (of_int (readBits d (spec_cursor bm nb i) nb)))
               (Math_pow pow 2 E))) (Math_pow pow 10 (- D)))
        else NaN)"
proof (cases "nb = 0")
  case True
  with assms show ?thesis by (simp add: decodeData_def Let_def)
next
  case False
  then have "decodeData pow d bm n nb R E D ! i =
        decodeLoop d bm n nb R (Math_pow pow 2 E) (Math_pow pow 10 (- D)) 0 0
          (replicate n (Fin 0)) ! i"
    by (simp add: decodeData_def Let_def)
  also have "\<dots> =
       (if present bm i
        then to_float32 (js_mul (js_add R (js_mul
               (Fin (of_int (readBits d (spec_cursor bm nb i) nb)))
               (Math_pow pow 2 E))) (Math_pow pow 10 (- D)))
        else NaN)"
    using assms by (subst decodeLoop_nth) (simp_all add: spec_cursor_def)
  finally show ?thesis using False by simp
qed

text \<open>With both scale factors 0 and integers in the exact range of a double, the double is exact.\<close>

lemma unscaled_exact:
  assumes "\<bar>X\<bar> < 2 ^ 53" and "\<bar>r + X\<bar> < 2 ^ 53"
  shows "js_mul (js_add (Fin (of_int r)) (js_mul (Fin (of_int X)) (Math_pow pow 2 0)))
           (Math_pow pow 10 0) = Fin (of_int (r + X))"
proof -
  have 1: "to_f64 (real_of_int X) = Fin (of_int X)" using assms(1) by (rule to_f64_of_int)
  have 2: "to_f64 (real_of_int (r + X)) = Fin (of_int (r + X))"
    using assms(2) by (rule to_f64_of_int)
  show ?thesis
    using 1 2 by (simp add: Math_pow_def)
qed


lemma sample_pow_10:
  assumes "\<bar>D\<bar> \<le> 30"
  shows "\<exists>ds. Math_pow sample_pow 10 (- D) = Fin ds
    \<and> \<bar>ds - 10 powi (- D)\<bar> \<le> 10 powi (- D) * 2 powi (- 50)"
proof -
  consider "D = 0" | "D = 5" | "D \<noteq> 0" "D \<noteq> 5" by blast
  then show ?thesis
  proof cases
    case 1
    then show ?thesis by (simp add: Math_pow_def)
  next
    case 2
    then show ?thesis
      by (intro exI [of _ "368934881474191 / 36893488147419103232"])
        (simp add: Math_pow_def sample_pow_def)
  next
    case 3
    define p :: real where "p = 10 powi (- D)"
    have "p \<le> 10 powi 30" unfolding p_def using assms by (intro power_int_increasing) simp_all
    also have "\<dots> < 2 powi 1023" by simp
    finally have "\<bar>p\<bar> < 2 powi 1023" by (simp add: p_def)
    from to_f64_error [OF this] obtain ds where
      ds: "to_f64 p = Fin ds" and e: "\<bar>ds - p\<bar> \<le> \<bar>p\<bar> * 2 powi (- 53) + 2 powi (- 1075)"
      by blast
    have "(10::real) powi (- 30) \<le> p"
      unfolding p_def using assms by (intro power_int_increasing) simp_all
    moreover have "(2::real) powi (- 1022) \<le> 10 powi (- 30)" by simp
    ultimately have lo: "2 powi (- 1022) \<le> p" by linarith
    have "(2::real) powi (- 1075) = 2 powi (- 1022) * 2 powi (- 53)"
      by (subst power_int_add [symmetric]) simp_all
    also have "\<dots> \<le> p * 2 powi (- 53)" using lo by (intro mult_right_mono) simp_all
    finally have "\<bar>ds - p\<bar> \<le> 2 * (p * 2 powi (- 53))" using e lo by simp
    also have "\<dots> \<le> p * 2 powi (- 50)" using lo by simp
    finally have "\<bar>ds - p\<bar> \<le> p * 2 powi (- 50)" .
    with ds 3 show ?thesis by (auto simp: Math_pow_def sample_pow_def p_def)
  qed
qed


lemma singleton_nth: "length xs = 1 \<Longrightarrow> xs = [xs ! 0]"
  by (cases xs) simp_all



lemma readBits_FF: "readBits [0xFF] 0 8 = 255"
  by (simp add: readBits_def readBitsLoop.simps bitAt_def)

lemma readBits_empty: "readBits [] 0 8 = 0"
  by (simp add: readBits_def readBitsLoop.simps bitAt_def)

lemma decode_sample_FF: "decodeData pow [0xFF] None 1 8 (Fin 0) 0 0 = [Fin 255]"
proof -
  have "js_mul (js_add (Fin 0) (js_mul (Fin 255) (Math_pow pow 2 0))) (Math_pow pow 10 0) =
        Fin 255"
    using unscaled_exact [of 255 0 pow] by simp
  moreover have "to_f32 255 = Fin 255" using to_f32_of_int [of 255] by simp
  ultimately have "decodeData pow [0xFF] None 1 8 (Fin 0) 0 0 ! 0 = Fin 255"
    by (simp add: decodeData_nth present_def spec_cursor_def readBits_FF)
  then show ?thesis
    using singleton_nth [of "decodeData pow [0xFF] None 1 8 (Fin 0) 0 0"]
    by (simp add: decodeData_length)
qed

lemma decode_sample_empty: "decodeData pow [] None 1 8 (Fin 0) 0 0 = [Fin 0]"
proof -
  have "js_mul (js_add (Fin 0) (js_mul (Fin 0) (Math_pow pow 2 0))) (Math_pow pow 10 0) =
        Fin 0"
    using unscaled_exact [of 0 0 pow] by simp
  moreover have "to_f32 0 = Fin 0" using to_f32_of_int [of 0] by simp
  ultimately have "decodeData pow [] None 1 8 (Fin 0) 0 0 ! 0 = Fin 0"
    by (simp add: decodeData_nth present_def spec_cursor_def readBits_empty)
  then show ?thesis
    using singleton_nth [of "decodeData pow [] None 1 8 (Fin 0) 0 0"]
    by (simp add: decodeData_length)
qed

section \<open>Properties of the parser\<close>

lemma readUIntBE_update:
  "p < off \<or> off + w \<le> p \<Longrightarrow> readUIntBE w (buf[p := a]) off = readUIntBE w buf off"
  by (auto simp: readUIntBE_def drop_update_cancel drop_update_swap take_update_cancel)

lemma bufferSlice_update: "p < start \<Longrightarrow> bufferSlice (buf[p := a]) start e = bufferSlice buf start e"
  by (simp add: bufferSlice_def take_update_swap drop_update_cancel)

lemmas read_defs = readUInt8_def readUInt16BE_def readUInt32BE_def readInt16BE_def
  readInt32BE_def readFloatBE_def

lemma section2_mono: "section2 buffer off = Inr off' \<Longrightarrow> off \<le> off'"
  by (auto simp: section2_def bind_def split: sum.splits if_splits)

lemma section4_mono: "section4 buffer off = Inr off' \<Longrightarrow> off \<le> off'"
  by (auto simp: section4_def bind_def split: sum.splits)

lemma section6_mono: "section6 buffer off = Inr (bm, off') \<Longrightarrow> off \<le> off'"
  by (auto simp: section6_def bind_def split: sum.splits)

lemma section1_update:
  "p < off \<or> off + 19 \<le> p \<Longrightarrow> section1 (buf[p := a]) off = section1 buf off"
  by (elim disjE) (simp_all add: section1_def read_defs readUIntBE_update)

lemma section2_update:
  "p < off \<or> off + 5 \<le> p \<Longrightarrow> section2 (buf[p := a]) off = section2 buf off"
  by (elim disjE) (simp_all add: section2_def read_defs readUIntBE_update)

lemma section3_update:
  "p < off \<or> off + 71 \<le> p \<or> p = off + 12 \<or> p = off + 13 \<Longrightarrow>
   section3 (buf[p := a]) off = section3 buf off"
  by (elim disjE) (simp_all add: section3_def read_defs readUIntBE_update)

lemma section4_update:
  "p < off \<or> off + 4 \<le> p \<Longrightarrow> section4 (buf[p := a]) off = section4 buf off"
  by (elim disjE) (simp_all add: section4_def read_defs readUIntBE_update)

lemma section5_update:
  "p < off \<or> off + 20 \<le> p \<or> p = off + 9 \<or> p = off + 10 \<Longrightarrow>
   section5 (buf[p := a]) off = section5 buf off"
  by (elim disjE) (simp_all add: section5_def read_defs readUIntBE_update)

lemma section6_update:
  "p < off \<Longrightarrow> section6 (buf[p := a]) off = section6 buf off"
  by (simp add: section6_def read_defs readUIntBE_update bufferSlice_update cong: if_cong)

lemma section7_update:
  "p < off \<Longrightarrow> section7 (buf[p := a]) off = section7 buf off"
  by (simp add: section7_def read_defs readUIntBE_update bufferSlice_update)

lemma parse_update:
  assumes s1: "section1 buffer 16 = Inr (ts, o2)"
    and s2: "section2 buffer o2 = Inr o3"
    and s3: "section3 buffer o3 = Inr (g, o4)"
    and s4: "section4 buffer o4 = Inr o5"
    and s5: "section5 buffer o5 = Inr (pk, o6)"
    and len1: "35 \<le> o2" and len3: "o3 + 71 \<le> o4" and len5: "o5 + 20 \<le> o6"
    and p: "p \<in> {o3 + 12, o3 + 13, o5 + 9, o5 + 10}"
  shows "parseMRMSGrib2 pow (buffer[p := a]) = parseMRMSGrib2 pow buffer
     \<and> section1 (buffer[p := a]) 16 = Inr (ts, o2)
     \<and> section2 (buffer[p := a]) o2 = Inr o3
     \<and> section3 (buffer[p := a]) o3 = Inr (g, o4)
     \<and> section4 (buffer[p := a]) o4 = Inr o5
     \<and> section5 (buffer[p := a]) o5 = Inr (pk, o6)"
proof -
  have o23: "o2 \<le> o3" using s2 by (rule section2_mono)
  have o45: "o4 \<le> o5" using s4 by (rule section4_mono)
  have p35: "35 \<le> p" using p len1 o23 len3 o45 by auto
  have magic: "take 4 (buffer[p := a]) = take 4 buffer"
    using p35 by (simp add: take_update_cancel)
  have r6: "readUInt8 (buffer[p := a]) 6 = readUInt8 buffer 6"
    using p35 by (simp add: readUInt8_def readUIntBE_update)
  have r7: "readUInt8 (buffer[p := a]) 7 = readUInt8 buffer 7"
    using p35 by (simp add: readUInt8_def readUIntBE_update)
  have e1: "section1 (buffer[p := a]) 16 = section1 buffer 16"
    using p35 by (simp add: section1_update)
  have e2: "section2 (buffer[p := a]) o2 = section2 buffer o2"
    using p o23 len3 o45 by (intro section2_update) auto
  have e3: "section3 (buffer[p := a]) o3 = section3 buffer o3"
    using p o23 len3 o45 by (intro section3_update) auto
  have e4: "section4 (buffer[p := a]) o4 = section4 buffer o4"
    using p o23 len3 o45 by (intro section4_update) auto
  have e5: "section5 (buffer[p := a]) o5 = section5 buffer o5"
    using p o23 len3 o45 by (intro section5_update) auto
  have lt6: "p < o6" using p len3 o45 len5 by auto
  have e6: "section6 (buffer[p := a]) o6 = section6 buffer o6"
    using lt6 by (rule section6_update)
  have e7: "section7 (buffer[p := a]) o7 = section7 buffer o7" if "o6 \<le> o7" for o7
    using lt6 that by (intro section7_update) simp
  obtain year month day hour minute second where ts: "ts = (year, month, day, hour, minute, second)"
    by (cases ts)
  obtain nx' ny' la1' lo1' la2' lo2' dx' dy' where g: "g = (nx', ny', la1', lo1', la2', lo2', dx', dy')"
    by (cases g) auto
  obtain n' r' bs' ds' nb' where pk: "pk = (n', r', bs', ds', nb')"
    by (cases pk)
  note pre = magic r6 r7 e1 s1 e2 s2 e3 s3 e4 s4 e5 s5 e6 ts g pk
  have "parseMRMSGrib2 pow (buffer[p := a]) = parseMRMSGrib2 pow buffer"
  proof (cases "section6 buffer o6")
    case (Inl e)
    show ?thesis
      by (simp add: parseMRMSGrib2_def [of pow buffer] parseMRMSGrib2_def [of pow "buffer[p := a]"]
          pre Inl bind_def cong: sum.case_cong if_cong)
  next
    case (Inr r)
    obtain bm o7 where r: "r = (bm, o7)" by (cases r)
    have "o6 \<le> o7" using Inr r section6_mono by blast
    note e7' = e7 [OF this]
    show ?thesis
      by (simp add: parseMRMSGrib2_def [of pow buffer] parseMRMSGrib2_def [of pow "buffer[p := a]"]
          pre Inr r e7' bind_def cong: sum.case_cong if_cong)
  qed
  then show ?thesis by (simp add: e1 e2 e3 e4 e5 s1 s2 s3 s4 s5)
qed

subsection \<open>The sample message\<close>

lemma sample_section1:
  "section1 (sample_header g p @ t) 16 = Inr ((2024, 5, 17, 12, 30, 0), 37)"
  by (simp add: section1_def bind_def read_defs readUIntBE_def be_nat_def sample_header_def)

lemma sample_section2: "section2 (sample_header g p @ t) 37 = Inr 37"
  by (simp add: section2_def bind_def read_defs readUIntBE_def be_nat_def sample_header_def)

lemma sample_section3:
  "section3 (sample_header g p @ t) 37 =
     Inr ((1, 1, div1e6 54995000, div1e6 230005000, div1e6 20005000, div1e6 299995000,
           div1e6 10000, div1e6 10000), 109)"
  by (simp add: section3_def bind_def read_defs readUIntBE_def be_nat_def to_signed_def
      sample_header_def)

lemma sample_section4: "section4 (sample_header g p @ t) 109 = Inr 118"
  by (simp add: section4_def bind_def read_defs readUIntBE_def be_nat_def sample_header_def)

lemma sample_section5:
  "section5 (sample_header g p @ t) 118 = Inr ((1, Fin 0, 0, 0, 8), 139)"
  by (simp add: section5_def bind_def read_defs readUIntBE_def be_nat_def to_signed_def
      float32_of_bits_def sample_header_def)

lemma sample_section6: "section6 (sample_header g p @ t) 139 = Inr (None, 145)"
  by (simp add: section6_def bind_def read_defs readUIntBE_def be_nat_def sample_header_def)


lemma sample_parse:
  "parseMRMSGrib2 pow (sample_header g p @ t) =
     bind (section7 (sample_header g p @ t) 145) (\<lambda>dataBuffer.
       Inr \<lparr>discipline = 0, timestamp = (2024, 4, 17, 12, 30, 0), nx = 1, ny = 1,
            la1 = div1e6 54995000, lo1 = div1e6 230005000,
            la2 = div1e6 20005000, lo2 = div1e6 299995000,
            dx = div1e6 10000, dy = div1e6 10000,
            grid_values = decodeData pow dataBuffer None 1 8 (Fin 0) 0 0,
            numberOfDataPoints = 1\<rparr>)"
proof -
  have magic: "take 4 (sample_header g p @ t) = GRIB"
    by (simp add: sample_header_def GRIB_def)
  have disc: "readUInt8 (sample_header g p @ t) 6 = Inr 0"
    by (simp add: read_defs readUIntBE_def be_nat_def sample_header_def)
  have ed: "readUInt8 (sample_header g p @ t) 7 = Inr 2"
    by (simp add: read_defs readUIntBE_def be_nat_def sample_header_def)
  show ?thesis
    by (subst parseMRMSGrib2_def, subst magic, cases "section7 (sample_header g p @ t) 145")
      (simp_all add: disc ed sample_section1 sample_section2 sample_section3
        sample_section4 sample_section5 sample_section6 bind_def)
qed


lemma sample_section7_cut:
  "section7 (sample_header g p @ [0, 0, 0, 6, 7]) 145 = Inr []"
  by (simp add: section7_def bind_def read_defs readUIntBE_def be_nat_def bufferSlice_def
      sample_header_def)

lemma sample_section7_whole:
  "section7 (sample_header g p @ [0, 0, 0, 6, 7, 0xFF, 0x37, 0x37, 0x37, 0x37]) 145 = Inr [0xFF]"
  by (simp add: section7_def bind_def read_defs readUIntBE_def be_nat_def bufferSlice_def
      sample_header_def)

lemma sample_section7_long:
  "section7 (sample_header g p @ [0xFF, 0xFF, 0xFF, 0xFF, 7, 0xFF]) 145 = Inr [0xFF]"
  by (simp add: section7_def bind_def read_defs readUIntBE_def be_nat_def bufferSlice_def
      sample_header_def)

lemma sample_message_eq:
  "sample_message = sample_header 0 0 @ [0, 0, 0, 6, 7, 0xFF, 0x37, 0x37, 0x37, 0x37]"
  by (simp add: sample_message_def)

section \<open>Claims about the colour scale\<close>

text \<open>
  C1. The claim: the not-a-number sentinel maps to fully transparent black \<open>(0,0,0,0)\<close>.
  Every comparison of not-a-number is false, so \<open>getColorForReflectivity\<close> falls through
  all thresholds and returns the last colour, the opaque purple of 65 dBZ and more.
\<close>

theorem getColorForReflectivity_NaN:
  "getColorForReflectivity NaN = (153, 85, 201, 255)"
  by (simp add: getColorForReflectivity_def)

section \<open>Claims about the bit reader and the decoder\<close>

text \<open>
  C6. The claim: for every bit width up to 32 the bit reader returns the field as a
  nonnegative big-endian unsigned integer. With 32 bits and the most significant bit
  set, the 32-bit signed accumulator of \<open>readBits\<close> is negative: the field
  \<open>0x80000000\<close> reads as \<open>-2147483648\<close>, not \<open>2147483648\<close>.
\<close>

theorem readBits_32_negative:
  "readBits [0x80, 0x00, 0x00, 0x00] 0 32 = - 2147483648"
  by (simp add: readBits_def readBitsLoop.simps bitAt_def)

text \<open>
  C5. The claim: with bit width 0 every present cell equals the reference value and the
  cells that a bit map marks missing are not-a-number. The branch for bit width 0
  fills the whole grid and returns before the bit map is looked at: the single cell
  of a grid whose bit map marks it missing holds the reference value.
\<close>

theorem decodeData_zero_width_ignores_bitmap:
  "decodeData sample_pow [] (Some [0x00]) 1 0 (Fin 1) 0 0 = [Fin 1]"
  by code_simp

text \<open>
  C3. The claim: a cell whose bit in the bit map is 0 holds the not-a-number sentinel,
  whatever the data payload holds. The loop of \<open>decodeData\<close> does that, but with bit
  width 0 \<open>decodeData\<close> fills the grid with the reference value and returns before
  the loop, without a look at the bit map: cell 0, which the bit map \<open>0x7F\<close> marks
  missing, holds the reference value 2, as does the present cell 1.
\<close>

theorem decodeData_zero_width_masked_cell:
  "\<not> present (Some [0x7F]) 0 \<and> present (Some [0x7F]) 1
   \<and> decodeData sample_pow [0xAB] (Some [0x7F]) 2 0 (Fin 2) 0 0 = [Fin 2, Fin 2]"
  by code_simp




text \<open>
  C10. Every cell of the grid that \<open>decodeData\<close> returns is a single-precision number:
  rounding it to single precision again changes nothing. With bit width 0 a cell is
  the rounding of the reference value; otherwise a missing cell is not-a-number and a
  present cell is the rounding to single precision of the double
  \<open>(R + X * binaryScale) * decimalScale\<close>, with \<open>X\<close> the result of \<open>readBits\<close> at the
  cell's cursor and the two scales the results of \<open>Math.pow\<close>.
\<close>

theorem decodeData_single_precision:
  assumes "i < npoints"
  shows "to_float32 (decodeData pow dataBuffer bitMap npoints numberOfBits R E D ! i) =
           decodeData pow dataBuffer bitMap npoints numberOfBits R E D ! i
    \<and> decodeData pow dataBuffer bitMap npoints numberOfBits R E D ! i =
        (if numberOfBits = 0 then to_float32 R
         else if present bitMap i
           then to_float32
                  (js_mul
                     (js_add R
                        (js_mul
                           (Fin (of_int (readBits dataBuffer
                              (spec_cursor bitMap numberOfBits i) numberOfBits)))
                           (Math_pow pow 2 E)))
                     (Math_pow pow 10 (- D)))
           else NaN)"
  using assms by (simp add: decodeData_nth to_float32_idem)

text \<open>
  The stored value is not the double: with \<open>R = 100\<close>, \<open>E = 3\<close>, \<open>D = -1\<close> and the
  25-bit field \<open>X = 2^24 + 1\<close> the double is \<open>(100 + 16777217 * 8) * 10 = 1342178360\<close>,
  and the cell holds \<open>1342178304\<close>, the nearest single-precision number.
\<close>

theorem decodeData_single_precision_witness:
  "readBits [0x80, 0x00, 0x00, 0x80] 0 25 = 16777217
   \<and> js_mul (js_add (Fin 100) (js_mul (Fin 16777217) (Math_pow sample_pow 2 3)))
       (Math_pow sample_pow 10 1) = Fin 1342178360
   \<and> decodeData sample_pow [0x80, 0x00, 0x00, 0x80] None 1 25 (Fin 100) 3 (- 1) ! 0 =
       Fin 1342178304
   \<and> to_float32 (Fin 1342178304) = Fin 1342178304"
proof -
  have rb: "readBits [0x80, 0x00, 0x00, 0x80] 0 25 = 16777217"
    by (simp add: readBits_def readBitsLoop.simps bitAt_def)
  have bs: "Math_pow sample_pow 2 3 = Fin 8"
    using to_f64_of_int [of 8] by (simp add: Math_pow_def sample_pow_def)
  have ds: "Math_pow sample_pow 10 1 = Fin 10"
    using to_f64_of_int [of 10] by (simp add: Math_pow_def sample_pow_def)
  have m1: "js_mul (Fin 16777217) (Fin 8) = Fin 134217736"
    using to_f64_of_int [of 134217736] by simp
  have a1: "js_add (Fin 100) (Fin 134217736) = Fin 134217836"
    using to_f64_of_int [of 134217836] by simp
  have m2: "js_mul (Fin 134217836) (Fin 10) = Fin 1342178360"
    using to_f64_of_int [of 1342178360] by simp
  have dbl: "js_mul (js_add (Fin 100) (js_mul (Fin 16777217) (Math_pow sample_pow 2 3)))
       (Math_pow sample_pow 10 1) = Fin 1342178360"
    by (simp only: bs ds m1 a1 m2)
  have r: "to_f32 1342178360 = Fin 1342178304" by code_simp
  have p: "present None 0" by (simp add: present_def)
  have c: "spec_cursor None 25 0 = 0" by (simp add: spec_cursor_def)
  note w = decodeData_single_precision [where i = 0 and npoints = 1
      and dataBuffer = "[0x80, 0x00, 0x00, 0x80]" and bitMap = None and numberOfBits = 25
      and pow = sample_pow and R = "Fin 100" and E = 3 and D = "- 1"]
  have cell: "decodeData sample_pow [0x80, 0x00, 0x00, 0x80] None 1 25 (Fin 100) 3 (- 1) ! 0 =
      Fin 1342178304"
    using w [THEN conjunct2] by (simp add: p c rb dbl r)
  have "to_float32 (Fin 1342178304) = Fin 1342178304"
    using w [THEN conjunct1] unfolding cell by simp
  with cell rb dbl show ?thesis by simp
qed

text \<open>
  C4 fails as stated: no input makes the decoder fail. The sample message decodes to
  the grid \<open>[255]\<close>; cut off in front of the one byte of its data payload, it still
  parses, and the grid is \<open>[0]\<close>.
\<close>

theorem truncated_payload_counterexample:
  "map_sum id grid_values (parseMRMSGrib2 sample_pow sample_message) = Inr [Fin 255]
   \<and> map_sum id grid_values (parseMRMSGrib2 sample_pow (sample_header 0 0 @ [0, 0, 0, 6, 7])) =
       Inr [Fin 0]"
  by (simp add: sample_message_eq sample_parse sample_section7_cut sample_section7_whole
      bind_def decode_sample_FF [unfolded One_nat_def] decode_sample_empty [unfolded One_nat_def])

text \<open>
  C4, amended: decoding never fails for lack of data. A bit past the end of the data
  payload reads as 0 (the index is outside the buffer, nothing is read there), so a
  payload that ends early decodes to the grid of the payload padded with zero bytes,
  and the grid always has \<open>numberOfDataPoints\<close> cells.
\<close>

theorem decodeData_short_payload:
  "decodeData pow (dataBuffer @ replicate k 0) bitMap npoints numberOfBits R E D =
     decodeData pow dataBuffer bitMap npoints numberOfBits R E D
   \<and> length (decodeData pow dataBuffer bitMap npoints numberOfBits R E D) = npoints"
  by (simp add: decodeData_def Let_def decodeLoop_pad length_decodeLoop)

section \<open>Claims about the sections of a message\<close>

text \<open>
  C7 fails as stated: the data section of this message declares a length of
  4294967295 bytes with 6 bytes left in the buffer, and the message is parsed.
\<close>

theorem section_length_counterexample:
  "map_sum id grid_values
     (parseMRMSGrib2 sample_pow (sample_header 0 0 @ [0xFF, 0xFF, 0xFF, 0xFF, 7, 0xFF])) =
   Inr [Fin 255]"
  by (simp add: sample_parse sample_section7_long bind_def decode_sample_FF [unfolded One_nat_def])

text \<open>
  C7, amended: every section read starts with the 4-byte length field, and fails with
  the range error of the buffer when fewer than 4 bytes remain at the cursor. The
  declared length itself is not checked: with the 4 bytes in the buffer, the read of
  the product-definition section moves the cursor by the declared length, whatever it
  is (0, or more than what remains), and the read of the data section clips the
  payload to the buffer.
\<close>

theorem section_reads_range_checked:
  "(length buffer < offset + 4 \<longrightarrow>
      section1 buffer offset = Inl RangeError \<and> section2 buffer offset = Inl RangeError \<and>
      section3 buffer offset = Inl RangeError \<and> section4 buffer offset = Inl RangeError \<and>
      section5 buffer offset = Inl RangeError \<and> section6 buffer offset = Inl RangeError \<and>
      section7 buffer offset = Inl RangeError)
   \<and> (offset + 4 \<le> length buffer \<longrightarrow>
      section4 buffer offset = Inr (offset + be_nat (take 4 (drop offset buffer))) \<and>
      section7 buffer offset =
        Inr (bufferSlice buffer (offset + 5) (offset + be_nat (take 4 (drop offset buffer)))))"
  by (simp add: section1_def section2_def section3_def section4_def section5_def section6_def
      section7_def bind_def readUInt32BE_def readUIntBE_def)

theorem section_reads_range_checked_witness:
  "section1 [0, 0, 0] 0 = Inl RangeError \<and> section7 [0, 0, 0] 0 = Inl RangeError
   \<and> section4 [0, 0, 0, 0] 0 = Inr 0 \<and> section7 [0, 0, 0, 0] 0 = Inr []"
  using section_reads_range_checked [of "[0, 0, 0]" 0]
    section_reads_range_checked [of "[0, 0, 0, 0]" 0]
  by (simp add: be_nat_def bufferSlice_def)

text \<open>
  C8 fails as stated: with the grid-definition template number 30 and the
  data-representation template number 41 the sample message is parsed to the same
  grid.
\<close>

theorem template_counterexample:
  "map_sum id grid_values
     (parseMRMSGrib2 sample_pow (sample_header 30 41 @ [0, 0, 0, 6, 7, 0xFF, 0x37, 0x37, 0x37, 0x37]))
   = Inr [Fin 255]"
  by (simp add: sample_parse sample_section7_whole bind_def decode_sample_FF [unfolded One_nat_def])

text \<open>
  C8, amended: the template numbers are not read. Let the reads of sections 1 to 5
  succeed at the offsets \<open>16\<close>, \<open>o2\<close>, \<open>o3\<close>, \<open>o4\<close>, \<open>o5\<close>, and let sections 1, 3 and 5
  be long enough for the fields read from them (19, 71 and 20 bytes). Then the result
  of \<open>parseMRMSGrib2\<close>, value or exception, does not depend on bytes 12 and 13 of
  section 3 (the grid-definition template number) nor on bytes 9 and 10 of section 5
  (the data-representation template number).
\<close>

theorem parse_ignores_template_numbers:
  assumes "section1 buffer 16 = Inr (ts, o2)"
    and "section2 buffer o2 = Inr o3"
    and "section3 buffer o3 = Inr (g, o4)"
    and "section4 buffer o4 = Inr o5"
    and "section5 buffer o5 = Inr (pk, o6)"
    and "35 \<le> o2" and "o3 + 71 \<le> o4" and "o5 + 20 \<le> o6"
  shows "parseMRMSGrib2 pow (buffer[o3 + 12 := a, o3 + 13 := b, o5 + 9 := c, o5 + 10 := d]) =
         parseMRMSGrib2 pow buffer"
proof -
  note u1 = parse_update [where p = "o3 + 12" and a = a, OF assms]
  have 1: "parseMRMSGrib2 pow (buffer[o3 + 12 := a]) = parseMRMSGrib2 pow buffer"
    and h1: "section1 (buffer[o3 + 12 := a]) 16 = Inr (ts, o2)"
      "section2 (buffer[o3 + 12 := a]) o2 = Inr o3"
      "section3 (buffer[o3 + 12 := a]) o3 = Inr (g, o4)"
      "section4 (buffer[o3 + 12 := a]) o4 = Inr o5"
      "section5 (buffer[o3 + 12 := a]) o5 = Inr (pk, o6)"
    using u1 by simp_all
  define b1 where "b1 = buffer[o3 + 12 := a]"
  note u2 = parse_update [where p = "o3 + 13" and a = b, OF h1 [folded b1_def] assms(6-8)]
  have 2: "parseMRMSGrib2 pow (b1[o3 + 13 := b]) = parseMRMSGrib2 pow b1"
    and h2: "section1 (b1[o3 + 13 := b]) 16 = Inr (ts, o2)"
      "section2 (b1[o3 + 13 := b]) o2 = Inr o3"
      "section3 (b1[o3 + 13 := b]) o3 = Inr (g, o4)"
      "section4 (b1[o3 + 13 := b]) o4 = Inr o5"
      "section5 (b1[o3 + 13 := b]) o5 = Inr (pk, o6)"
    using u2 by simp_all
  define b2 where "b2 = b1[o3 + 13 := b]"
  note u3 = parse_update [where p = "o5 + 9" and a = c, OF h2 [folded b2_def] assms(6-8)]
  have 3: "parseMRMSGrib2 pow (b2[o5 + 9 := c]) = parseMRMSGrib2 pow b2"
    and h3: "section1 (b2[o5 + 9 := c]) 16 = Inr (ts, o2)"
      "section2 (b2[o5 + 9 := c]) o2 = Inr o3"
      "section3 (b2[o5 + 9 := c]) o3 = Inr (g, o4)"
      "section4 (b2[o5 + 9 := c]) o4 = Inr o5"
      "section5 (b2[o5 + 9 := c]) o5 = Inr (pk, o6)"
    using u3 by simp_all
  define b3 where "b3 = b2[o5 + 9 := c]"
  note u4 = parse_update [where p = "o5 + 10" and a = d, OF h3 [folded b3_def] assms(6-8)]
  have 4: "parseMRMSGrib2 pow (b3[o5 + 10 := d]) = parseMRMSGrib2 pow b3"
    using u4 by simp
  show ?thesis
    using 1 2 3 4 by (simp add: b1_def b2_def b3_def)
qed

theorem parse_ignores_template_numbers_witness:
  "parseMRMSGrib2 sample_pow (sample_message[49 := 0, 50 := 30, 127 := 0, 128 := 41]) =
   parseMRMSGrib2 sample_pow sample_message"
  using parse_ignores_template_numbers
    [where buffer = sample_message and ts = "(2024, 5, 17, 12, 30, 0)" and ?o2.0 = 37
        and ?o3.0 = 37 and ?o4.0 = 109 and ?o5.0 = 118 and pk = "(1, Fin 0, 0, 0, 8)"
        and ?o6.0 = 139 and a = 0 and b = 30 and c = 0 and d = 41 and pow = sample_pow]
  by (simp add: sample_message_eq sample_section1 sample_section2 sample_section3
      sample_section4 sample_section5)

section \<open>Claims about the product cache\<close>



end
